theory Spec2Isabelle
  imports Main "HOL-Library.Word"
begin

section \<open>snp-dists: pairwise SNP distance matrix (main.c)\<close>

text \<open>
  A shallow embedding of \<^verbatim>\<open>src/main.c\<close>. Conventions:
  \<^item> a \<^verbatim>\<open>char\<close> is a \<^typ>\<open>char\<close> (one byte); a C string or a character buffer is a
    \<^typ>\<open>string\<close>, with the terminating NUL byte written out where the code relies on it;
  \<^item> \<^verbatim>\<open>size_t\<close> is a 64-bit word (addition wraps), \<^verbatim>\<open>int\<close> a 32-bit word read as two's
    complement (LP64);
  \<^item> loop counters and lengths that the code keeps far below the width of their type
    (\<^verbatim>\<open>i\<close>, \<^verbatim>\<open>j\<close>, \<^verbatim>\<open>N\<close>, \<^verbatim>\<open>L\<close>) are natural numbers or integers;
  \<^item> a read outside a buffer (undefined in C) makes the result \<open>None\<close>;
  \<^item> every \<^verbatim>\<open>exit\<close> and the final \<^verbatim>\<open>return\<close> of \<^verbatim>\<open>main\<close> is an \<open>Exit\<close> outcome
    carrying the status and everything written to standard output. The diagnostic stream
    is not modelled.
\<close>

subsection \<open>Constants\<close>

type_synonym size_t = "64 word"
type_synonym c_int = "32 word"

definition VERSION :: string where
  "VERSION = ''0.6.3''"

definition EXENAME :: string where
  "EXENAME = ''snp-dists''"

definition GITHUB_URL :: string where
  "GITHUB_URL = ''https://github.com/tseemann/snp-dists''"

definition MAX_SEQ :: nat where
  "MAX_SEQ = 100000"

definition IGNORE_CHAR :: char where
  "IGNORE_CHAR = CHR ''.''"

definition EXIT_SUCCESS :: int where
  "EXIT_SUCCESS = 0"

definition EXIT_FAILURE :: int where
  "EXIT_FAILURE = 1"

definition NUL :: char where
  "NUL = CHR 0x00"

definition tab :: char where
  "tab = CHR 0x09"

definition newline :: char where
  "newline = CHR 0x0A"

subsection \<open>The table and \<^verbatim>\<open>init_table\<close> (lines 18--38)\<close>

text \<open>
  \<^verbatim>\<open>static int table[256][256] = {0}\<close>: a total function of two bytes, all zero at start.
  \<^verbatim>\<open>init_table\<close> writes fourteen cells; the model passes the table in and returns it updated.
\<close>

type_synonym tbl = "char \<Rightarrow> char \<Rightarrow> c_int"

definition table0 :: tbl where
  "table0 = (\<lambda>x y. 0)"

definition set_cell :: "tbl \<Rightarrow> char \<Rightarrow> char \<Rightarrow> c_int \<Rightarrow> tbl" where
  "set_cell t x y v = t(x := (t x)(y := v))"

definition init_table :: "tbl \<Rightarrow> tbl" where
  "init_table t0 =
    (let t = set_cell t0 (CHR ''A'') (CHR ''C'') 1;
         t = set_cell t (CHR ''A'') (CHR ''G'') 1;
         t = set_cell t (CHR ''A'') (CHR ''T'') 1;
         t = set_cell t (CHR ''C'') (CHR ''A'') 1;
         t = set_cell t (CHR ''C'') (CHR ''G'') 1;
         t = set_cell t (CHR ''C'') (CHR ''T'') 1;
         t = set_cell t (CHR ''G'') (CHR ''A'') 1;
         t = set_cell t (CHR ''G'') (CHR ''C'') 1;
         t = set_cell t (CHR ''G'') (CHR ''T'') 1;
         t = set_cell t (CHR ''T'') (CHR ''A'') 1;
         t = set_cell t (CHR ''T'') (CHR ''C'') 1;
         t = set_cell t (CHR ''T'') (CHR ''G'') 1;
         \<comment> \<open>line 36, a chained assignment: the right one first, its value into the left\<close>
         t = set_cell t (CHR ''T'') (CHR ''W'') 1;
         t = set_cell t (CHR ''W'') (CHR ''T'') (t (CHR ''T'') (CHR ''W''))
     in t)"

text \<open>The table every call of \<^verbatim>\<open>distance\<close> sees: \<^verbatim>\<open>main\<close> calls \<^verbatim>\<open>init_table\<close> first.\<close>

definition table :: tbl where
  "table = init_table table0"

subsection \<open>\<^verbatim>\<open>distance\<close> (lines 41--50)\<close>

text \<open>
  The \<^verbatim>\<open>for\<close> loop with its counter \<open>i\<close> and accumulator \<open>diff\<close>. The table entry, an
  \<^verbatim>\<open>int\<close>, is converted to \<^verbatim>\<open>size_t\<close> (sign extension) and added with wrap-around.
  Reading \<open>a[i]\<close> or \<open>b[i]\<close> beyond the buffer gives \<open>None\<close>.
\<close>

function distance_loop :: "tbl \<Rightarrow> string \<Rightarrow> string \<Rightarrow> nat \<Rightarrow> nat \<Rightarrow> size_t \<Rightarrow> size_t option" where
  "distance_loop t a b L i diff =
    (if i < L then
       (if i < length a \<and> i < length b then
          distance_loop t a b L (i + 1)
            (if a ! i \<noteq> b ! i \<and> a ! i \<noteq> IGNORE_CHAR \<and> b ! i \<noteq> IGNORE_CHAR
             then diff + scast (t (a ! i) (b ! i)) else diff)
        else None)
     else Some diff)"
  by pat_completeness auto
termination
  by (relation "measure (\<lambda>(t, a, b, L, i, diff). L - i)") auto

declare distance_loop.simps [simp del]

definition distance :: "tbl \<Rightarrow> string \<Rightarrow> string \<Rightarrow> nat \<Rightarrow> size_t option" where
  "distance t a b L = distance_loop t a b L 0 0"

subsection \<open>Library calls used by \<^verbatim>\<open>main\<close>\<close>

text \<open>
  \<^verbatim>\<open>toupper\<close> in the C locale (the program never calls \<^verbatim>\<open>setlocale\<close>): the 26 lower-case
  letters map to their upper-case letters, every other byte to itself.
\<close>

definition toupper :: "char \<Rightarrow> char" where
  "toupper c =
    (case map_of (zip ''abcdefghijklmnopqrstuvwxyz'' ''ABCDEFGHIJKLMNOPQRSTUVWXYZ'') c of
       Some u \<Rightarrow> u
     | None \<Rightarrow> c)"

text \<open>
  \<^verbatim>\<open>dst = calloc(l + 1, 1); strcpy(dst, src)\<close> where \<open>src\<close> holds \<open>l\<close> bytes before its
  terminator: the bytes of \<open>src\<close> up to its first NUL are copied, all that follows in the
  \<open>l + 1\<close> bytes of the buffer stays zero.
\<close>

definition calloc_strcpy :: "string \<Rightarrow> string" where
  "calloc_strcpy src =
    (let s = takeWhile (\<lambda>c. c \<noteq> NUL) src
     in s @ replicate (length src + 1 - length s) NUL)"

text \<open>\<^verbatim>\<open>printf("%s", buf)\<close> writes the bytes before the first NUL.\<close>

definition printf_s :: "string \<Rightarrow> string" where
  "printf_s buf = takeWhile (\<lambda>c. c \<noteq> NUL) buf"

text \<open>\<^verbatim>\<open>printf("%zu", d)\<close> writes \<open>d\<close> in decimal, without leading zeros.\<close>

function show_nat :: "nat \<Rightarrow> string" where
  "show_nat n =
    (if n < 10 then [''0123456789'' ! n]
     else show_nat (n div 10) @ [''0123456789'' ! (n mod 10)])"
  by pat_completeness auto
termination
  by (relation "measure id") auto

declare show_nat.simps [simp del]

definition printf_zu :: "size_t \<Rightarrow> string" where
  "printf_zu d = show_nat (unat d)"

subsection \<open>Outcomes and \<^verbatim>\<open>show_help\<close> (lines 53--71)\<close>

datatype outcome =
    Exit int string  \<comment> \<open>the exit status and the text written to standard output\<close>
  | Undefined_read   \<comment> \<open>a read outside a buffer\<close>

definition help_str :: string where
  "help_str =
     ''SYNOPSIS'' @ [newline] @ ''  Pairwise SNP distance matrix from a FASTA alignment'' @ [newline] @
     ''USAGE'' @ [newline] @ ''  '' @ EXENAME @ '' [options] alignment.fasta[.gz] > matrix.tsv'' @ [newline] @
     ''OPTIONS'' @ [newline] @
     ''  -h'' @ [tab] @ ''Show this help'' @ [newline] @
     ''  -v'' @ [tab] @ ''Print version and exit'' @ [newline] @
     ''  -q'' @ [tab] @ ''Quiet mode; do not print progress information'' @ [newline] @
     ''  -a'' @ [tab] @ ''Count all differences not just [AGTC]'' @ [newline] @
     ''  -k'' @ [tab] @ ''Keep case, don'' @ [CHR 0x27] @ ''t uppercase all letters'' @ [newline] @
     ''  -c'' @ [tab] @ ''Output CSV instead of TSV'' @ [newline] @
     ''  -b'' @ [tab] @ ''Blank top left corner cell'' @ [newline] @
     ''URL'' @ [newline] @ ''  '' @ GITHUB_URL @ [newline]"

text \<open>The help text goes to standard output on success and to the diagnostic stream otherwise.\<close>

definition show_help :: "int \<Rightarrow> outcome" where
  "show_help retcode = Exit retcode (if retcode = EXIT_SUCCESS then help_str else [])"

subsection \<open>\<^verbatim>\<open>main\<close>: the options (lines 79--91)\<close>

record config =
  quiet :: bool
  csv :: bool
  corner :: bool
  allchars :: bool
  keepcase :: bool

definition config0 :: config where
  "config0 = \<lparr>quiet = False, csv = False, corner = True, allchars = False, keepcase = False\<rparr>"

text \<open>
  The \<^verbatim>\<open>while\<close> loop over \<^verbatim>\<open>getopt\<close>, given the option characters \<^verbatim>\<open>getopt\<close> returns in turn
  (\<^verbatim>\<open>?\<close> for an option it does not know). \<open>Inl\<close> is an exit inside the loop.
\<close>

fun parse_opts :: "char list \<Rightarrow> config \<Rightarrow> outcome + config" where
  "parse_opts [] cfg = Inr cfg"
| "parse_opts (opt # rest) cfg =
    (if opt = CHR ''h'' then Inl (show_help EXIT_SUCCESS)
     else if opt = CHR ''q'' then parse_opts rest (cfg\<lparr>quiet := True\<rparr>)
     else if opt = CHR ''c'' then parse_opts rest (cfg\<lparr>csv := True\<rparr>)
     else if opt = CHR ''a'' then parse_opts rest (cfg\<lparr>allchars := True\<rparr>)
     else if opt = CHR ''k'' then parse_opts rest (cfg\<lparr>keepcase := True\<rparr>)
     else if opt = CHR ''b'' then parse_opts rest (cfg\<lparr>corner := False\<rparr>)
     else if opt = CHR ''v'' then Inl (Exit EXIT_SUCCESS (EXENAME @ '' '' @ VERSION @ [newline]))
     else Inl (show_help EXIT_FAILURE))"

subsection \<open>\<^verbatim>\<open>main\<close>: loading the sequences (lines 111--168)\<close>

text \<open>
  \<^verbatim>\<open>kseq.h\<close> is not part of the sources at hand, so what \<^verbatim>\<open>kseq_read\<close> yields is a parameter:
  the records \<open>(name, sequence)\<close> it returns before its first negative result, each with
  \<open>l\<close> the number of bytes of the sequence.

  The arrays \<^verbatim>\<open>seq\<close> and \<^verbatim>\<open>name\<close> are the lists of their first \<open>N\<close> entries.
\<close>

datatype error = No_filename | Open_failed | Length_mismatch | Too_many_sequences | No_sequences

record loaded =
  seq_of :: "string list"
  name_of :: "string list"
  N_of :: nat
  L_of :: int

text \<open>Lines 145--147 and 152--156: both loops walk the buffer up to its first NUL.\<close>

fun upper_loop :: "string \<Rightarrow> string" where
  "upper_loop [] = []"
| "upper_loop (c # s) = (if c = NUL then c # s else toupper c # upper_loop s)"

fun clean_loop :: "string \<Rightarrow> string" where
  "clean_loop [] = []"
| "clean_loop (c # s) =
    (if c = NUL then c # s
     else (if c \<noteq> CHR ''A'' \<and> c \<noteq> CHR ''T'' \<and> c \<noteq> CHR ''C'' \<and> c \<noteq> CHR ''G''
           then IGNORE_CHAR else c) # clean_loop s)"

definition store_seq :: "config \<Rightarrow> string \<Rightarrow> string" where
  "store_seq cfg src =
    (let s = calloc_strcpy src;
         s = (if \<not> keepcase cfg then upper_loop s else s);
         s = (if \<not> allchars cfg then clean_loop s else s)
     in s)"

fun load_loop :: "config \<Rightarrow> (string \<times> string) list \<Rightarrow> loaded \<Rightarrow> error + loaded" where
  "load_loop cfg [] st = Inr st"
| "load_loop cfg ((nm, s) # rest) st =
    (let l = int (length s);
         L = (if L_of st < 0 then l else L_of st)
     in if l \<noteq> L then Inl Length_mismatch
        else if N_of st \<ge> MAX_SEQ then Inl Too_many_sequences
        else load_loop cfg rest
               \<lparr>seq_of = seq_of st @ [store_seq cfg s],
                name_of = name_of st @ [calloc_strcpy nm],
                N_of = N_of st + 1,
                L_of = L\<rparr>)"

definition load :: "config \<Rightarrow> (string \<times> string) list \<Rightarrow> error + loaded" where
  "load cfg recs =
    (case load_loop cfg recs \<lparr>seq_of = [], name_of = [], N_of = 0, L_of = - 1\<rparr> of
       Inl e \<Rightarrow> Inl e
     | Inr st \<Rightarrow> if N_of st < 1 then Inl No_sequences else Inr st)"

subsection \<open>\<^verbatim>\<open>main\<close>: writing the matrix (lines 173--193)\<close>

function header_loop :: "char \<Rightarrow> string list \<Rightarrow> nat \<Rightarrow> nat \<Rightarrow> string \<Rightarrow> string" where
  "header_loop sep names N j out =
    (if j < N then header_loop sep names N (j + 1) (out @ sep # printf_s (names ! j))
     else out)"
  by pat_completeness auto
termination
  by (relation "measure (\<lambda>(sep, names, N, j, out). N - j)") auto

declare header_loop.simps [simp del]

text \<open>Line 189: the cell of row \<open>j\<close> and column \<open>i\<close>.\<close>

definition cell :: "tbl \<Rightarrow> string list \<Rightarrow> nat \<Rightarrow> nat \<Rightarrow> nat \<Rightarrow> size_t option" where
  "cell t seqs L j i = distance t (seqs ! j) (seqs ! i) L"

function row_loop :: "tbl \<Rightarrow> char \<Rightarrow> string list \<Rightarrow> nat \<Rightarrow> nat \<Rightarrow> nat \<Rightarrow> nat \<Rightarrow> string \<Rightarrow> string option" where
  "row_loop t sep seqs N L j i out =
    (if i < N then
       (case cell t seqs L j i of
          None \<Rightarrow> None
        | Some d \<Rightarrow> row_loop t sep seqs N L j (i + 1) (out @ sep # printf_zu d))
     else Some out)"
  by pat_completeness auto
termination
  by (relation "measure (\<lambda>(t, sep, seqs, N, L, j, i, out). N - i)") auto

declare row_loop.simps [simp del]

function matrix_loop :: "tbl \<Rightarrow> char \<Rightarrow> string list \<Rightarrow> string list \<Rightarrow> nat \<Rightarrow> nat \<Rightarrow> nat \<Rightarrow> string \<Rightarrow> string option" where
  "matrix_loop t sep seqs names N L j out =
    (if j < N then
       (case row_loop t sep seqs N L j 0 (out @ printf_s (names ! j)) of
          None \<Rightarrow> None
        | Some out' \<Rightarrow> matrix_loop t sep seqs names N L (j + 1) (out' @ [newline]))
     else Some out)"
  by pat_completeness auto
termination
  by (relation "measure (\<lambda>(t, sep, seqs, names, N, L, j, out). N - j)") auto

declare matrix_loop.simps [simp del]

definition write_matrix :: "tbl \<Rightarrow> config \<Rightarrow> loaded \<Rightarrow> outcome" where
  "write_matrix t cfg st =
    (let sep = (if csv cfg then CHR '','' else tab);
         out = (if corner cfg then EXENAME @ '' '' @ VERSION else []);
         out = header_loop sep (name_of st) (N_of st) 0 out;
         out = out @ [newline]
     in case matrix_loop t sep (seq_of st) (name_of st) (N_of st) (nat (L_of st)) 0 out of
          None \<Rightarrow> Undefined_read
        | Some out \<Rightarrow> Exit 0 out)"

subsection \<open>\<^verbatim>\<open>main\<close> (lines 74--204)\<close>

text \<open>
  The arguments of the model: \<open>fs\<close> maps a file name to the records read from it, \<open>None\<close>
  when \<^verbatim>\<open>gzopen\<close> fails; \<open>opts\<close> are the option characters \<^verbatim>\<open>getopt\<close> returns and \<open>args\<close> the
  arguments from \<^verbatim>\<open>optind\<close> on.
\<close>

definition run :: "tbl \<Rightarrow> config \<Rightarrow> (string \<Rightarrow> (string \<times> string) list option) \<Rightarrow> string list \<Rightarrow> outcome" where
  "run t cfg fs args =
    (case args of
       [] \<Rightarrow> show_help EXIT_FAILURE
     | fasta # _ \<Rightarrow>
        (case fs fasta of
           None \<Rightarrow> Exit EXIT_FAILURE []
         | Some recs \<Rightarrow>
            (case load cfg recs of
               Inl e \<Rightarrow> Exit EXIT_FAILURE []
             | Inr st \<Rightarrow> write_matrix t cfg st)))"

definition main :: "(string \<Rightarrow> (string \<times> string) list option) \<Rightarrow> char list \<Rightarrow> string list \<Rightarrow> outcome" where
  "main fs opts args =
    (let t = init_table table0
     in case parse_opts opts config0 of
          Inl e \<Rightarrow> e
        | Inr cfg \<Rightarrow> run t cfg fs args)"

section \<open>Notions used to state the properties\<close>

text \<open>
  What one position adds to \<open>diff\<close> in the loop of \<^verbatim>\<open>distance\<close>: the body of the loop, as a
  value.
\<close>

definition contribution :: "tbl \<Rightarrow> char \<Rightarrow> char \<Rightarrow> size_t" where
  "contribution t x y =
    (if x \<noteq> y \<and> x \<noteq> IGNORE_CHAR \<and> y \<noteq> IGNORE_CHAR then scast (t x y) else 0)"

text \<open>
  A sequence with position \<open>i\<close> taken out.
\<close>

definition without :: "nat \<Rightarrow> 'a list \<Rightarrow> 'a list" where
  "without i xs = take i xs @ drop (Suc i) xs"

text \<open>
  The scenario of the specification: three records of length 4, read from one file, and
  what the loader stores for them under the default options.
\<close>

definition scenario_records :: "(string \<times> string) list" where
  "scenario_records = [(''S1'', ''ACGT''), (''S2'', ''ACGA''), (''S3'', ''NNNN'')]"

definition scenario_fs :: "string \<Rightarrow> (string \<times> string) list option" where
  "scenario_fs f = (if f = ''aln.fa'' then Some scenario_records else None)"

definition scenario_loaded :: loaded where
  "scenario_loaded =
     \<lparr>seq_of = [''ACGT'' @ [NUL], ''ACGA'' @ [NUL], ''....'' @ [NUL]],
      name_of = [''S1'' @ [NUL], ''S2'' @ [NUL], ''S3'' @ [NUL]],
      N_of = 3, L_of = 4\<rparr>"

text \<open>
  Following the words of the specification, not the source: the definite bases a symbol can
  stand for. Section 4.1 names the alphabet and refers to the IUPAC standard for it; the
  glossary spells out \<open>R\<close> = A or G, \<open>W\<close> = A or T and \<open>N\<close> = any base. A symbol outside the alphabet stands
  for no definite base. The source has no such notion; the claims about the table are stated
  against it.
\<close>

definition spec_possible_bases :: "char \<Rightarrow> char set" where
  "spec_possible_bases c =
    (case map_of
       [(CHR ''A'', ''A''), (CHR ''C'', ''C''), (CHR ''G'', ''G''), (CHR ''T'', ''T''),
        (CHR ''R'', ''AG''), (CHR ''Y'', ''CT''), (CHR ''S'', ''GC''), (CHR ''W'', ''AT''),
        (CHR ''K'', ''GT''), (CHR ''M'', ''AC''), (CHR ''B'', ''CGT''), (CHR ''D'', ''AGT''),
        (CHR ''H'', ''ACT''), (CHR ''V'', ''ACG''), (CHR ''N'', ''ACGT'')] c of
       Some bases \<Rightarrow> set bases
     | None \<Rightarrow> {})"

text \<open>
  Alignments for the examples: \<^verbatim>\<open>W\<close> against \<^verbatim>\<open>C\<close>; two records of unequal length; a file
  without records; a file with \<^verbatim>\<open>MAX_SEQ + 1\<close> records; \<^verbatim>\<open>acgt\<close> against \<^verbatim>\<open>ACGT\<close>.
\<close>

definition wc_fs :: "string \<Rightarrow> (string \<times> string) list option" where
  "wc_fs f = (if f = ''aln.fa'' then Some [(''S1'', ''W''), (''S2'', ''C'')] else None)"




definition case_fs :: "string \<Rightarrow> (string \<times> string) list option" where
  "case_fs f = (if f = ''aln.fa'' then Some [(''S1'', ''acgt''), (''S2'', ''ACGT'')] else None)"

section \<open>Properties\<close>

subsection \<open>The table\<close>

lemma table_cases:
  "table x y =
    (if (x, y) \<in> {(CHR ''A'', CHR ''C''), (CHR ''A'', CHR ''G''), (CHR ''A'', CHR ''T''),
                  (CHR ''C'', CHR ''A''), (CHR ''C'', CHR ''G''), (CHR ''C'', CHR ''T''),
                  (CHR ''G'', CHR ''A''), (CHR ''G'', CHR ''C''), (CHR ''G'', CHR ''T''),
                  (CHR ''T'', CHR ''A''), (CHR ''T'', CHR ''C''), (CHR ''T'', CHR ''G''),
                  (CHR ''T'', CHR ''W''), (CHR ''W'', CHR ''T'')}
     then 1 else 0)"
  by (simp add: table_def init_table_def table0_def set_cell_def Let_def)

lemma table_01: "table x y = 0 \<or> table x y = 1"
  by (simp add: table_cases)

lemma table_sym: "table x y = table y x"
  unfolding table_cases by auto

subsection \<open>The loop of \<^verbatim>\<open>distance\<close> as a sum\<close>

lemma distance_loop_sum:
  "i \<le> L \<Longrightarrow> L \<le> length a \<Longrightarrow> L \<le> length b \<Longrightarrow>
   distance_loop t a b L i d = Some (d + (\<Sum>k = i..<L. contribution t (a ! k) (b ! k)))"
proof (induction t a b L i d rule: distance_loop.induct)
  case (1 t a b L i d)
  show ?case
  proof (cases "i < L")
    case True
    have rng: "i < length a \<and> i < length b" using True "1.prems" by auto
    have nxt: "i + 1 \<le> L" using True by simp
    note IH = "1.IH" [OF True rng nxt "1.prems"(2) "1.prems"(3)]
    have unfold: "distance_loop t a b L i d =
        distance_loop t a b L (i + 1)
          (if a ! i \<noteq> b ! i \<and> a ! i \<noteq> IGNORE_CHAR \<and> b ! i \<noteq> IGNORE_CHAR
           then d + scast (t (a ! i) (b ! i)) else d)"
      using True rng by (subst distance_loop.simps) simp
    have acc: "(if a ! i \<noteq> b ! i \<and> a ! i \<noteq> IGNORE_CHAR \<and> b ! i \<noteq> IGNORE_CHAR
           then d + scast (t (a ! i) (b ! i)) else d) = d + contribution t (a ! i) (b ! i)"
      by (simp add: contribution_def)
    have split: "(\<Sum>k = i..<L. contribution t (a ! k) (b ! k)) =
        contribution t (a ! i) (b ! i) + (\<Sum>k = i + 1..<L. contribution t (a ! k) (b ! k))"
      using True by (simp add: sum.atLeast_Suc_lessThan)
    have "distance_loop t a b L i d =
        Some ((if a ! i \<noteq> b ! i \<and> a ! i \<noteq> IGNORE_CHAR \<and> b ! i \<noteq> IGNORE_CHAR
           then d + scast (t (a ! i) (b ! i)) else d) +
          (\<Sum>k = i + 1..<L. contribution t (a ! k) (b ! k)))"
      by (simp only: unfold IH)
    then show ?thesis
      by (simp only: acc split add.assoc)
  next
    case False
    then have "i = L" using "1.prems" by simp
    then show ?thesis by (subst distance_loop.simps) simp
  qed
qed

lemma distance_sum:
  "L \<le> length a \<Longrightarrow> L \<le> length b \<Longrightarrow>
   distance t a b L = Some (\<Sum>k = 0..<L. contribution t (a ! k) (b ! k))"
  by (simp add: distance_def distance_loop_sum)

lemma distance_loop_None:
  "i \<le> length a \<Longrightarrow> i \<le> length b \<Longrightarrow> length a < L \<or> length b < L \<Longrightarrow>
   distance_loop t a b L i d = None"
proof (induction t a b L i d rule: distance_loop.induct)
  case (1 t a b L i d)
  have iL: "i < L" using "1.prems" by auto
  show ?case
  proof (cases "i < length a \<and> i < length b")
    case True
    have nxt: "i + 1 \<le> length a" "i + 1 \<le> length b" using True by auto
    note IH = "1.IH" [OF iL True nxt "1.prems"(3)]
    have "distance_loop t a b L i d =
        distance_loop t a b L (i + 1)
          (if a ! i \<noteq> b ! i \<and> a ! i \<noteq> IGNORE_CHAR \<and> b ! i \<noteq> IGNORE_CHAR
           then d + scast (t (a ! i) (b ! i)) else d)"
      using iL True by (subst distance_loop.simps) simp
    then show ?thesis
      by (simp only: IH)
  next
    case False
    show ?thesis
      by (subst distance_loop.simps) (simp only: iL False if_True if_False)
  qed
qed

lemma distance_None:
  "length a < L \<or> length b < L \<Longrightarrow> distance t a b L = None"
  by (simp add: distance_def distance_loop_None)

lemma distance_Some_iff:
  "(\<exists>d. distance t a b L = Some d) \<longleftrightarrow> L \<le> length a \<and> L \<le> length b"
  using distance_sum [of L a b t] distance_None [of a L b t] by (cases "L \<le> length a \<and> L \<le> length b") auto

subsection \<open>Distances under the table of \<^verbatim>\<open>init_table\<close>\<close>

lemma contribution_table_cases:
  "contribution table x y = 0 \<or> contribution table x y = 1"
  using table_01 [of x y] by (auto simp: contribution_def)

lemma unat_contribution_table_le: "unat (contribution table x y) \<le> 1"
  using contribution_table_cases [of x y] by auto

lemma word_sum_unat:
  fixes f :: "nat \<Rightarrow> size_t"
  shows "(\<Sum>k = i..<L. f k) = of_nat (\<Sum>k = i..<L. unat (f k))"
  by simp

lemma count_le:
  "(\<Sum>k = 0..<L. unat (contribution table (a ! k) (b ! k))) \<le> L"
proof -
  have "(\<Sum>k = 0..<L. unat (contribution table (a ! k) (b ! k))) \<le> (\<Sum>k = 0..<L. 1)"
    by (rule sum_mono) (rule unat_contribution_table_le)
  then show ?thesis by simp
qed

lemma distance_table_count:
  assumes "L \<le> length a" "L \<le> length b"
  shows "distance table a b L = Some (of_nat (\<Sum>k = 0..<L. unat (contribution table (a ! k) (b ! k))))"
  using assms by (simp add: distance_sum)

lemma unat_distance_table:
  assumes "L \<le> length a" "L \<le> length b" "L < 2 ^ 64"
  shows "\<exists>d. distance table a b L = Some d \<and>
     unat d = (\<Sum>k = 0..<L. unat (contribution table (a ! k) (b ! k)))"
proof -
  let ?S = "\<Sum>k = 0..<L. unat (contribution table (a ! k) (b ! k))"
  have "?S < 2 ^ 64" using count_le [where L = L and a = a and b = b] assms(3) by simp
  then have "unat (of_nat ?S :: size_t) = ?S"
    unfolding unat_of_nat by simp
  then show ?thesis using distance_table_count [OF assms(1,2)] by simp
qed

lemma sint_table: "sint (table x y) = (if table x y = 0 then 0 else 1)"
  using table_01 [of x y] by auto

lemma uint_contribution_table:
  "uint (contribution table x y) =
     (if x = y then 0 else if x = IGNORE_CHAR \<or> y = IGNORE_CHAR then 0 else sint (table x y))"
  using table_01 [of x y] by (auto simp: contribution_def)

text \<open>
  Claim C1. For sequences \<open>a\<close> and \<open>b\<close> that hold \<open>L\<close> symbols each (\<open>L\<close> a \<^verbatim>\<open>size_t\<close>),
  \<^verbatim>\<open>distance(a, b, L)\<close> returns, and its result is the sum over the positions \<open>i < L\<close> of
  0 where \<open>a[i] = b[i]\<close>, 0 where either symbol is the ignore sentinel, and the table
  entry of \<open>(a[i], b[i])\<close> otherwise; the result is not negative.
\<close>

theorem distance_is_position_sum:
  assumes "L \<le> length a" and "L \<le> length b" and "L < 2 ^ 64"
  shows "\<exists>d. distance table a b L = Some d \<and>
           uint d = (\<Sum>i = 0..<L.
              if a ! i = b ! i then 0
              else if a ! i = IGNORE_CHAR \<or> b ! i = IGNORE_CHAR then 0
              else sint (table (a ! i) (b ! i))) \<and>
           0 \<le> uint d"
proof -
  obtain d where d: "distance table a b L = Some d"
    and u: "unat d = (\<Sum>k = 0..<L. unat (contribution table (a ! k) (b ! k)))"
    using unat_distance_table [OF assms] by blast
  have "uint d = int (unat d)" by simp
  also have "\<dots> = (\<Sum>k = 0..<L. int (unat (contribution table (a ! k) (b ! k))))"
    unfolding u by (rule of_nat_sum)
  also have "\<dots> = (\<Sum>k = 0..<L. uint (contribution table (a ! k) (b ! k)))"
    by simp
  also have "\<dots> = (\<Sum>i = 0..<L.
              if a ! i = b ! i then 0
              else if a ! i = IGNORE_CHAR \<or> b ! i = IGNORE_CHAR then 0
              else sint (table (a ! i) (b ! i)))"
    by (simp only: uint_contribution_table)
  finally show ?thesis using d by simp
qed

text \<open>
  Claim C1 at \<^verbatim>\<open>AC.TN\<close> against \<^verbatim>\<open>AGGAT\<close>: two positions count.
\<close>

theorem distance_is_position_sum_witness:
  "(5::nat) \<le> length ''AC.TN'' \<and> (5::nat) \<le> length ''AGGAT'' \<and> (5::nat) < 2 ^ 64 \<and>
   (\<exists>d. distance table ''AC.TN'' ''AGGAT'' 5 = Some d \<and> uint d = 2)"
proof -
  have h1: "(5::nat) \<le> length ''AC.TN''" by simp
  have h2: "(5::nat) \<le> length ''AGGAT''" by simp
  have h3: "(5::nat) < 2 ^ 64" by simp
  have ivl: "{0..<5::nat} = {0, 1, 2, 3, 4}" by auto
  from distance_is_position_sum [OF h1 h2 h3] show ?thesis
    using h3 by (simp add: ivl table_cases IGNORE_CHAR_def)
qed

subsection \<open>Identity, symmetry and the ignore sentinel\<close>

lemma contribution_same: "contribution t x x = 0"
  by (simp add: contribution_def)

lemma contribution_ignore_left: "contribution t IGNORE_CHAR y = 0"
  by (simp add: contribution_def)

lemma contribution_ignore_right: "contribution t x IGNORE_CHAR = 0"
  by (simp add: contribution_def)

lemma contribution_sym:
  "t x y = t y x \<Longrightarrow> contribution t x y = contribution t y x"
  by (auto simp: contribution_def)

lemma distance_same: "L \<le> length s \<Longrightarrow> distance t s s L = Some 0"
  by (simp add: distance_sum contribution_same)

lemma distance_sym:
  assumes "\<forall>x y. t x y = t y x"
  shows "distance t a b L = distance t b a L"
proof (cases "L \<le> length a \<and> L \<le> length b")
  case True
  have "(\<Sum>k = 0..<L. contribution t (a ! k) (b ! k)) = (\<Sum>k = 0..<L. contribution t (b ! k) (a ! k))"
    by (rule sum.cong) (simp_all add: contribution_sym assms)
  then show ?thesis using True by (simp add: distance_sum)
next
  case False
  then have "length a < L \<or> length b < L" by auto
  then show ?thesis using distance_None [of a L b t] distance_None [of b L a t] by auto
qed

lemma distance_table_le:
  assumes "L \<le> length a" "L \<le> length b"
  shows "\<exists>d. distance table a b L = Some d \<and> unat d \<le> L"
proof -
  let ?S = "\<Sum>k = 0..<L. unat (contribution table (a ! k) (b ! k))"
  have "unat (of_nat ?S :: size_t) \<le> ?S"
    unfolding unat_of_nat by simp
  also have "?S \<le> L" by (rule count_le)
  finally show ?thesis using distance_table_count [OF assms] by simp
qed

text \<open>
  Claim C10. Every entry of the table built by \<^verbatim>\<open>init_table\<close> is 0 or 1, so the distance of two
  sequences that hold \<open>L\<close> symbols is at most \<open>L\<close>.
\<close>

theorem distance_at_most_length:
  assumes "L \<le> length a" and "L \<le> length b"
  shows "(\<forall>x y. table x y = 0 \<or> table x y = 1) \<and>
         (\<exists>d. distance table a b L = Some d \<and> unat d \<le> L)"
  using table_01 distance_table_le [OF assms] by blast

text \<open>
  Claim C10 at \<^verbatim>\<open>ACGT\<close> against \<^verbatim>\<open>TGCA\<close>.
\<close>

theorem distance_at_most_length_witness:
  "(4::nat) \<le> length ''ACGT'' \<and> (4::nat) \<le> length ''TGCA'' \<and>
   (\<exists>d. distance table ''ACGT'' ''TGCA'' 4 = Some d \<and> unat d \<le> 4)"
proof -
  have h1: "(4::nat) \<le> length ''ACGT''" by simp
  have h2: "(4::nat) \<le> length ''TGCA''" by simp
  from distance_at_most_length [OF h1 h2] show ?thesis by simp
qed

lemma count_update_left_le:
  "(\<Sum>k = 0..<L. unat (contribution t ((a[i := IGNORE_CHAR]) ! k) (b ! k)))
     \<le> (\<Sum>k = 0..<L. unat (contribution t (a ! k) (b ! k)))"
proof (rule sum_mono)
  fix k
  show "unat (contribution t ((a[i := IGNORE_CHAR]) ! k) (b ! k)) \<le> unat (contribution t (a ! k) (b ! k))"
  proof (cases "k = i \<and> i < length a")
    case True
    then show ?thesis by (simp add: contribution_ignore_left)
  next
    case False
    then have "(a[i := IGNORE_CHAR]) ! k = a ! k"
      by (cases "i < length a") (auto simp: nth_list_update list_update_beyond)
    then show ?thesis by simp
  qed
qed

lemma count_update_right_le:
  "(\<Sum>k = 0..<L. unat (contribution t (a ! k) ((b[i := IGNORE_CHAR]) ! k)))
     \<le> (\<Sum>k = 0..<L. unat (contribution t (a ! k) (b ! k)))"
proof (rule sum_mono)
  fix k
  show "unat (contribution t (a ! k) ((b[i := IGNORE_CHAR]) ! k)) \<le> unat (contribution t (a ! k) (b ! k))"
  proof (cases "k = i \<and> i < length b")
    case True
    then show ?thesis by (simp add: contribution_ignore_right)
  next
    case False
    then have "(b[i := IGNORE_CHAR]) ! k = b ! k"
      by (cases "i < length b") (auto simp: nth_list_update list_update_beyond)
    then show ?thesis by simp
  qed
qed

lemma sentinel_left_le:
  assumes "L \<le> length a" "L \<le> length b" "L < 2 ^ 64"
  shows "\<exists>d d'. distance table a b L = Some d \<and>
           distance table (a[i := IGNORE_CHAR]) b L = Some d' \<and> d' \<le> d"
proof -
  obtain d where d: "distance table a b L = Some d"
    and ud: "unat d = (\<Sum>k = 0..<L. unat (contribution table (a ! k) (b ! k)))"
    using unat_distance_table [OF assms] by blast
  have la: "L \<le> length (a[i := IGNORE_CHAR])" using assms(1) by simp
  obtain d' where d': "distance table (a[i := IGNORE_CHAR]) b L = Some d'"
    and ud': "unat d' = (\<Sum>k = 0..<L. unat (contribution table ((a[i := IGNORE_CHAR]) ! k) (b ! k)))"
    using unat_distance_table [OF la assms(2,3)] by blast
  have "unat d' \<le> unat d" unfolding ud ud' by (rule count_update_left_le)
  then have "d' \<le> d" by (simp add: word_le_nat_alt)
  then show ?thesis using d d' by blast
qed

lemma sentinel_right_le:
  assumes "L \<le> length a" "L \<le> length b" "L < 2 ^ 64"
  shows "\<exists>d d'. distance table a b L = Some d \<and>
           distance table a (b[i := IGNORE_CHAR]) L = Some d' \<and> d' \<le> d"
proof -
  obtain d where d: "distance table a b L = Some d"
    and ud: "unat d = (\<Sum>k = 0..<L. unat (contribution table (a ! k) (b ! k)))"
    using unat_distance_table [OF assms] by blast
  have lb: "L \<le> length (b[i := IGNORE_CHAR])" using assms(2) by simp
  obtain d' where d': "distance table a (b[i := IGNORE_CHAR]) L = Some d'"
    and ud': "unat d' = (\<Sum>k = 0..<L. unat (contribution table (a ! k) ((b[i := IGNORE_CHAR]) ! k)))"
    using unat_distance_table [OF assms(1) lb assms(3)] by blast
  have "unat d' \<le> unat d" unfolding ud ud' by (rule count_update_right_le)
  then have "d' \<le> d" by (simp add: word_le_nat_alt)
  then show ?thesis using d d' by blast
qed

lemma nth_without:
  "i < length xs \<Longrightarrow> k < length xs - 1 \<Longrightarrow> without i xs ! k = (if k < i then xs ! k else xs ! Suc k)"
  by (auto simp: without_def nth_append min_def)

lemma length_without: "i < length xs \<Longrightarrow> length (without i xs) = length xs - 1"
  by (auto simp: without_def)

lemma sum_skip_zero:
  fixes f :: "nat \<Rightarrow> size_t"
  assumes "i < L" "f i = 0"
  shows "(\<Sum>k = 0..<L. f k) = (\<Sum>k = 0..<L - 1. if k < i then f k else f (Suc k))"
proof -
  define g where "g k = (if k < i then f k else f (Suc k))" for k
  have bounds: "0 \<le> i" "i \<le> L" "i \<le> L - 1" using assms(1) by auto
  have "sum f {0..<L} = sum f {0..<i} + sum f {i..<L}"
    using sum.atLeastLessThan_concat [OF bounds(1,2), of f] by simp
  also have "sum f {i..<L} = f i + sum f {Suc i..<L}"
    using assms(1) by (simp add: sum.atLeast_Suc_lessThan)
  also have "sum f {Suc i..<L} = sum (\<lambda>k. f (Suc k)) {i..<L - 1}"
    using assms(1) sum.shift_bounds_Suc_ivl [of f i "L - 1"] by simp
  finally have lhs: "sum f {0..<L} = sum f {0..<i} + sum (\<lambda>k. f (Suc k)) {i..<L - 1}"
    using assms(2) by simp
  have "sum g {0..<L - 1} = sum g {0..<i} + sum g {i..<L - 1}"
    using sum.atLeastLessThan_concat [OF bounds(1,3), of g] by simp
  also have "sum g {0..<i} = sum f {0..<i}"
    by (rule sum.cong) (simp_all add: g_def)
  also have "sum g {i..<L - 1} = sum (\<lambda>k. f (Suc k)) {i..<L - 1}"
    by (rule sum.cong) (simp_all add: g_def)
  finally have "sum g {0..<L - 1} = sum f {0..<L}" using lhs by simp
  then show ?thesis by (simp add: g_def)
qed

lemma distance_without:
  assumes "i < L" "L \<le> length a" "L \<le> length b"
    and "contribution t (a ! i) (b ! i) = 0"
  shows "distance t a b L = distance t (without i a) (without i b) (L - 1)"
proof -
  have ia: "i < length a" and ib: "i < length b" using assms by auto
  have la: "L - 1 \<le> length (without i a)" and lb: "L - 1 \<le> length (without i b)"
    using assms ia ib by (simp_all add: length_without)
  have "(\<Sum>k = 0..<L - 1. contribution t (without i a ! k) (without i b ! k)) =
        (\<Sum>k = 0..<L - 1. if k < i then contribution t (a ! k) (b ! k)
                           else contribution t (a ! Suc k) (b ! Suc k))"
  proof (rule sum.cong)
    fix k assume "k \<in> {0..<L - 1}"
    then have "k < length a - 1" "k < length b - 1" using assms by auto
    then show "contribution t (without i a ! k) (without i b ! k) =
        (if k < i then contribution t (a ! k) (b ! k) else contribution t (a ! Suc k) (b ! Suc k))"
      using ia ib by (simp add: nth_without)
  qed simp
  also have "\<dots> = (\<Sum>k = 0..<L. contribution t (a ! k) (b ! k))"
    using sum_skip_zero [of i L "\<lambda>k. contribution t (a ! k) (b ! k)"] assms(1,4) by simp
  finally show ?thesis
    using assms(2,3) la lb by (simp add: distance_sum)
qed

subsection \<open>The loader\<close>

lemma length_calloc_strcpy: "length (calloc_strcpy src) = length src + 1"
proof -
  have "length (takeWhile (\<lambda>c. c \<noteq> NUL) src) \<le> length src"
    by (rule length_takeWhile_le)
  then show ?thesis by (simp add: calloc_strcpy_def Let_def)
qed

lemma length_upper_loop: "length (upper_loop s) = length s"
  by (induction s) simp_all

lemma length_clean_loop: "length (clean_loop s) = length s"
  by (induction s) simp_all

lemma length_store_seq: "length (store_seq cfg src) = length src + 1"
  by (simp add: store_seq_def Let_def length_upper_loop length_clean_loop length_calloc_strcpy)

lemma printf_s_calloc_strcpy: "printf_s (calloc_strcpy src) = printf_s src"
proof -
  have "length (takeWhile (\<lambda>c. c \<noteq> NUL) src) \<le> length src"
    by (rule length_takeWhile_le)
  then have "Suc (length src) - length (takeWhile (\<lambda>c. c \<noteq> NUL) src) =
      Suc (length src - length (takeWhile (\<lambda>c. c \<noteq> NUL) src))"
    by (rule Suc_diff_le)
  then obtain n where n: "Suc (length src) - length (takeWhile (\<lambda>c. c \<noteq> NUL) src) = Suc n"
    by blast
  have "takeWhile (\<lambda>c. c \<noteq> NUL) (takeWhile (\<lambda>c. c \<noteq> NUL) src @ NUL # replicate n NUL)
      = takeWhile (\<lambda>c. c \<noteq> NUL) src"
    by (simp add: takeWhile_append)
  then show ?thesis by (simp add: printf_s_def calloc_strcpy_def Let_def n)
qed

lemma load_loop_ok:
  "0 \<le> L_of st \<Longrightarrow> \<forall>r\<in>set recs. int (length (snd r)) = L_of st \<Longrightarrow>
   N_of st + length recs \<le> MAX_SEQ \<Longrightarrow>
   load_loop cfg recs st =
     Inr \<lparr>seq_of = seq_of st @ map (\<lambda>r. store_seq cfg (snd r)) recs,
          name_of = name_of st @ map (\<lambda>r. calloc_strcpy (fst r)) recs,
          N_of = N_of st + length recs,
          L_of = L_of st\<rparr>"
proof (induction recs arbitrary: st)
  case Nil
  then show ?case by simp
next
  case (Cons r recs)
  obtain nm s where r: "r = (nm, s)" by (cases r)
  let ?st = "\<lparr>seq_of = seq_of st @ [store_seq cfg s], name_of = name_of st @ [calloc_strcpy nm],
              N_of = N_of st + 1, L_of = L_of st\<rparr>"
  have len: "int (length s) = L_of st" using Cons.prems(2) r by simp
  have room: "\<not> MAX_SEQ \<le> N_of st" using Cons.prems(3) by simp
  have step: "load_loop cfg (r # recs) st = load_loop cfg recs ?st"
    using len room Cons.prems(1) by (simp add: r Let_def)
  have "load_loop cfg recs ?st =
     Inr \<lparr>seq_of = seq_of ?st @ map (\<lambda>r. store_seq cfg (snd r)) recs,
          name_of = name_of ?st @ map (\<lambda>r. calloc_strcpy (fst r)) recs,
          N_of = N_of ?st + length recs,
          L_of = L_of ?st\<rparr>"
    by (rule Cons.IH) (use Cons.prems in simp_all)
  then show ?case unfolding step by (simp add: r)
qed

lemma load_loop_mismatch:
  "0 \<le> L_of st \<Longrightarrow> \<exists>r\<in>set recs. int (length (snd r)) \<noteq> L_of st \<Longrightarrow>
   N_of st + length recs \<le> MAX_SEQ \<Longrightarrow>
   load_loop cfg recs st = Inl Length_mismatch"
proof (induction recs arbitrary: st)
  case Nil
  then show ?case by simp
next
  case (Cons r recs)
  obtain nm s where r: "r = (nm, s)" by (cases r)
  show ?case
  proof (cases "int (length s) = L_of st")
    case False
    then show ?thesis using Cons.prems(1) by (simp add: r Let_def)
  next
    case True
    let ?st = "\<lparr>seq_of = seq_of st @ [store_seq cfg s], name_of = name_of st @ [calloc_strcpy nm],
                N_of = N_of st + 1, L_of = L_of st\<rparr>"
    have room: "\<not> MAX_SEQ \<le> N_of st" using Cons.prems(3) by simp
    have step: "load_loop cfg (r # recs) st = load_loop cfg recs ?st"
      using True room Cons.prems(1) by (simp add: r Let_def)
    have "load_loop cfg recs ?st = Inl Length_mismatch"
      by (rule Cons.IH) (use Cons.prems True r in auto)
    then show ?thesis unfolding step .
  qed
qed

lemma load_loop_fails:
  "0 \<le> L_of st \<Longrightarrow> N_of st \<le> MAX_SEQ \<Longrightarrow>
   (\<exists>r\<in>set recs. int (length (snd r)) \<noteq> L_of st) \<or> MAX_SEQ < N_of st + length recs \<Longrightarrow>
   load_loop cfg recs st = Inl Length_mismatch \<or> load_loop cfg recs st = Inl Too_many_sequences"
proof (induction recs arbitrary: st)
  case Nil
  then show ?case by simp
next
  case (Cons r recs)
  obtain nm s where r: "r = (nm, s)" by (cases r)
  show ?case
  proof (cases "int (length s) = L_of st \<and> \<not> MAX_SEQ \<le> N_of st")
    case False
    then show ?thesis using Cons.prems(1) by (auto simp: r Let_def)
  next
    case True
    let ?st = "\<lparr>seq_of = seq_of st @ [store_seq cfg s], name_of = name_of st @ [calloc_strcpy nm],
                N_of = N_of st + 1, L_of = L_of st\<rparr>"
    have step: "load_loop cfg (r # recs) st = load_loop cfg recs ?st"
      using True Cons.prems(1) by (simp add: r Let_def)
    have "load_loop cfg recs ?st = Inl Length_mismatch \<or> load_loop cfg recs ?st = Inl Too_many_sequences"
      by (rule Cons.IH) (use Cons.prems True r in auto)
    then show ?thesis unfolding step .
  qed
qed

lemma load_loop_too_many:
  "0 \<le> L_of st \<Longrightarrow> \<forall>r\<in>set recs. int (length (snd r)) = L_of st \<Longrightarrow>
   MAX_SEQ < N_of st + length recs \<Longrightarrow> N_of st \<le> MAX_SEQ \<Longrightarrow>
   load_loop cfg recs st = Inl Too_many_sequences"
proof (induction recs arbitrary: st)
  case Nil
  then show ?case by simp
next
  case (Cons r recs)
  obtain nm s where r: "r = (nm, s)" by (cases r)
  have len: "int (length s) = L_of st" using Cons.prems(2) r by simp
  show ?case
  proof (cases "MAX_SEQ \<le> N_of st")
    case True
    then show ?thesis using len Cons.prems(1) by (simp add: r Let_def)
  next
    case False
    let ?st = "\<lparr>seq_of = seq_of st @ [store_seq cfg s], name_of = name_of st @ [calloc_strcpy nm],
                N_of = N_of st + 1, L_of = L_of st\<rparr>"
    have step: "load_loop cfg (r # recs) st = load_loop cfg recs ?st"
      using len False Cons.prems(1) by (simp add: r Let_def)
    have "load_loop cfg recs ?st = Inl Too_many_sequences"
      by (rule Cons.IH) (use Cons.prems False in auto)
    then show ?thesis unfolding step .
  qed
qed

lemma load_loop_first:
  "load_loop cfg ((nm, s) # rest) \<lparr>seq_of = [], name_of = [], N_of = 0, L_of = - 1\<rparr> =
   load_loop cfg rest \<lparr>seq_of = [store_seq cfg s], name_of = [calloc_strcpy nm], N_of = 1,
                        L_of = int (length s)\<rparr>"
  by (simp add: Let_def MAX_SEQ_def)

lemma load_empty: "load cfg [] = Inl No_sequences"
  by (simp add: load_def)

lemma load_ok:
  assumes "recs \<noteq> []" and "\<forall>r\<in>set recs. length (snd r) = length (snd (hd recs))"
    and "length recs \<le> MAX_SEQ"
  shows "load cfg recs =
     Inr \<lparr>seq_of = map (\<lambda>r. store_seq cfg (snd r)) recs,
          name_of = map (\<lambda>r. calloc_strcpy (fst r)) recs,
          N_of = length recs,
          L_of = int (length (snd (hd recs)))\<rparr>"
proof -
  obtain nm s rest where recs: "recs = (nm, s) # rest"
    using assms(1) by (cases recs) auto
  let ?st = "\<lparr>seq_of = [store_seq cfg s], name_of = [calloc_strcpy nm], N_of = 1,
              L_of = int (length s)\<rparr>"
  have "load_loop cfg rest ?st =
     Inr \<lparr>seq_of = seq_of ?st @ map (\<lambda>r. store_seq cfg (snd r)) rest,
          name_of = name_of ?st @ map (\<lambda>r. calloc_strcpy (fst r)) rest,
          N_of = N_of ?st + length rest,
          L_of = L_of ?st\<rparr>"
    by (rule load_loop_ok) (use assms recs in auto)
  then show ?thesis
    unfolding load_def recs load_loop_first by simp
qed

lemma load_fails:
  assumes "(\<exists>r\<in>set recs. length (snd r) \<noteq> length (snd (hd recs))) \<or> MAX_SEQ < length recs"
  shows "load cfg recs = Inl Length_mismatch \<or> load cfg recs = Inl Too_many_sequences"
proof -
  have "recs \<noteq> []" using assms by (auto simp: MAX_SEQ_def)
  then obtain nm s rest where recs: "recs = (nm, s) # rest"
    by (cases recs) auto
  let ?st = "\<lparr>seq_of = [store_seq cfg s], name_of = [calloc_strcpy nm], N_of = 1,
              L_of = int (length s)\<rparr>"
  have "load_loop cfg rest ?st = Inl Length_mismatch \<or> load_loop cfg rest ?st = Inl Too_many_sequences"
    by (rule load_loop_fails) (use assms recs in \<open>auto simp: MAX_SEQ_def\<close>)
  then show ?thesis
    unfolding load_def recs load_loop_first by auto
qed

lemma load_mismatch:
  assumes "\<exists>r\<in>set recs. length (snd r) \<noteq> length (snd (hd recs))" and "length recs \<le> MAX_SEQ"
  shows "load cfg recs = Inl Length_mismatch"
proof -
  have "recs \<noteq> []" using assms by auto
  then obtain nm s rest where recs: "recs = (nm, s) # rest"
    by (cases recs) auto
  let ?st = "\<lparr>seq_of = [store_seq cfg s], name_of = [calloc_strcpy nm], N_of = 1,
              L_of = int (length s)\<rparr>"
  have "load_loop cfg rest ?st = Inl Length_mismatch"
    by (rule load_loop_mismatch) (use assms recs in auto)
  then show ?thesis
    unfolding load_def recs load_loop_first by simp
qed

lemma load_too_many:
  assumes "\<forall>r\<in>set recs. length (snd r) = length (snd (hd recs))" and "MAX_SEQ < length recs"
  shows "load cfg recs = Inl Too_many_sequences"
proof -
  have "recs \<noteq> []" using assms by auto
  then obtain nm s rest where recs: "recs = (nm, s) # rest"
    by (cases recs) auto
  let ?st = "\<lparr>seq_of = [store_seq cfg s], name_of = [calloc_strcpy nm], N_of = 1,
              L_of = int (length s)\<rparr>"
  have "load_loop cfg rest ?st = Inl Too_many_sequences"
    by (rule load_loop_too_many) (use assms recs in \<open>auto simp: MAX_SEQ_def\<close>)
  then show ?thesis
    unfolding load_def recs load_loop_first by simp
qed

lemma load_Inr_cases:
  assumes "load cfg recs = Inr st"
  shows "recs \<noteq> [] \<and> (\<forall>r\<in>set recs. length (snd r) = length (snd (hd recs))) \<and>
         length recs \<le> MAX_SEQ \<and>
         st = \<lparr>seq_of = map (\<lambda>r. store_seq cfg (snd r)) recs,
               name_of = map (\<lambda>r. calloc_strcpy (fst r)) recs,
               N_of = length recs,
               L_of = int (length (snd (hd recs)))\<rparr>"
proof -
  have ne: "recs \<noteq> []"
  proof
    assume "recs = []"
    then have "load cfg recs = Inl No_sequences" by (simp add: load_empty)
    then show False using assms by simp
  qed
  have eq: "\<forall>r\<in>set recs. length (snd r) = length (snd (hd recs))"
  proof (rule ccontr)
    assume "\<not> ?thesis"
    then have "\<exists>r\<in>set recs. length (snd r) \<noteq> length (snd (hd recs))" by blast
    then have "load cfg recs = Inl Length_mismatch \<or> load cfg recs = Inl Too_many_sequences"
      by (intro load_fails disjI1)
    then show False using assms by auto
  qed
  have le: "length recs \<le> MAX_SEQ"
  proof (rule ccontr)
    assume "\<not> ?thesis"
    then have "MAX_SEQ < length recs" by simp
    then have "load cfg recs = Inl Length_mismatch \<or> load cfg recs = Inl Too_many_sequences"
      by (intro load_fails disjI2)
    then show False using assms by auto
  qed
  have "Inr st = load cfg recs" using assms by (rule sym)
  also note load_ok [OF ne eq le, of cfg]
  finally have "st = \<lparr>seq_of = map (\<lambda>r. store_seq cfg (snd r)) recs,
               name_of = map (\<lambda>r. calloc_strcpy (fst r)) recs,
               N_of = length recs,
               L_of = int (length (snd (hd recs)))\<rparr>"
    by (rule Inr_inject)
  then show ?thesis using ne eq le by blast
qed

subsection \<open>The output loops\<close>

lemma header_loop_eq:
  "header_loop sep names N j out = out @ concat (map (\<lambda>k. sep # printf_s (names ! k)) [j..<N])"
proof (induction sep names N j out rule: header_loop.induct)
  case (1 sep names N j out)
  show ?case
  proof (cases "j < N")
    case True
    have "header_loop sep names N j out =
        header_loop sep names N (j + 1) (out @ sep # printf_s (names ! j))"
      using True by (subst header_loop.simps) simp
    also have "\<dots> = (out @ sep # printf_s (names ! j)) @
        concat (map (\<lambda>k. sep # printf_s (names ! k)) [j + 1..<N])"
      by (rule "1.IH" [OF True])
    also have "\<dots> = out @ concat (map (\<lambda>k. sep # printf_s (names ! k)) [j..<N])"
      using True by (simp add: upt_conv_Cons)
    finally show ?thesis .
  next
    case False
    then show ?thesis by (subst header_loop.simps) simp
  qed
qed

lemma row_loop_eq:
  "\<forall>k. i \<le> k \<and> k < N \<longrightarrow> (\<exists>d. cell t seqs L j k = Some d) \<Longrightarrow>
   row_loop t sep seqs N L j i out =
     Some (out @ concat (map (\<lambda>k. sep # printf_zu (the (cell t seqs L j k))) [i..<N]))"
proof (induction t sep seqs N L j i out rule: row_loop.induct)
  case (1 t sep seqs N L j i out)
  show ?case
  proof (cases "i < N")
    case True
    then obtain d where d: "cell t seqs L j i = Some d" using "1.prems" by auto
    have later: "\<forall>k. i + 1 \<le> k \<and> k < N \<longrightarrow> (\<exists>d. cell t seqs L j k = Some d)"
      using "1.prems" by auto
    have "row_loop t sep seqs N L j i out =
        row_loop t sep seqs N L j (i + 1) (out @ sep # printf_zu d)"
      using True d by (subst row_loop.simps) simp
    also have "\<dots> = Some ((out @ sep # printf_zu d) @
        concat (map (\<lambda>k. sep # printf_zu (the (cell t seqs L j k))) [i + 1..<N]))"
      by (rule "1.IH" [OF True d later])
    also have "\<dots> = Some (out @ concat (map (\<lambda>k. sep # printf_zu (the (cell t seqs L j k))) [i..<N]))"
      using True d by (simp add: upt_conv_Cons)
    finally show ?thesis .
  next
    case False
    then show ?thesis by (subst row_loop.simps) simp
  qed
qed

lemma matrix_loop_eq:
  "\<forall>r k. r < N \<and> k < N \<longrightarrow> (\<exists>d. cell t seqs L r k = Some d) \<Longrightarrow>
   matrix_loop t sep seqs names N L j out =
     Some (out @ concat (map (\<lambda>r. printf_s (names ! r) @
                concat (map (\<lambda>k. sep # printf_zu (the (cell t seqs L r k))) [0..<N]) @ [newline])
              [j..<N]))"
proof (induction t sep seqs names N L j out rule: matrix_loop.induct)
  case (1 t sep seqs names N L j out)
  show ?case
  proof (cases "j < N")
    case True
    let ?row = "concat (map (\<lambda>k. sep # printf_zu (the (cell t seqs L j k))) [0..<N])"
    have cells: "\<forall>k. 0 \<le> k \<and> k < N \<longrightarrow> (\<exists>d. cell t seqs L j k = Some d)"
      using "1.prems" True by auto
    have row: "row_loop t sep seqs N L j 0 (out @ printf_s (names ! j)) =
        Some ((out @ printf_s (names ! j)) @ ?row)"
      by (rule row_loop_eq [OF cells])
    have "matrix_loop t sep seqs names N L j out =
        matrix_loop t sep seqs names N L (j + 1) (((out @ printf_s (names ! j)) @ ?row) @ [newline])"
      using True row by (subst matrix_loop.simps) simp
    also have "\<dots> = Some ((((out @ printf_s (names ! j)) @ ?row) @ [newline]) @
        concat (map (\<lambda>r. printf_s (names ! r) @
                concat (map (\<lambda>k. sep # printf_zu (the (cell t seqs L r k))) [0..<N]) @ [newline])
              [j + 1..<N]))"
      by (rule "1.IH" [OF True row "1.prems"])
    also have "\<dots> = Some (out @ concat (map (\<lambda>r. printf_s (names ! r) @
                concat (map (\<lambda>k. sep # printf_zu (the (cell t seqs L r k))) [0..<N]) @ [newline])
              [j..<N]))"
      using True by (simp add: upt_conv_Cons)
    finally show ?thesis .
  next
    case False
    then show ?thesis by (subst matrix_loop.simps) simp
  qed
qed

lemma cell_defined:
  assumes "j < length seqs" "i < length seqs" "\<forall>s\<in>set seqs. L \<le> length s"
  shows "\<exists>d. cell t seqs L j i = Some d"
proof -
  have "L \<le> length (seqs ! j)" "L \<le> length (seqs ! i)" using assms by auto
  then show ?thesis by (simp add: cell_def distance_sum)
qed

lemma stored_cells_defined:
  assumes "\<forall>r\<in>set recs. length (snd r) = L" "j < length recs" "i < length recs"
  shows "\<exists>d. cell t (map (\<lambda>r. store_seq cfg (snd r)) recs) L j i = Some d"
  by (rule cell_defined) (use assms in \<open>auto simp: length_store_seq\<close>)

lemma write_matrix_eq:
  assumes "\<forall>r\<in>set recs. length (snd r) = L"
  shows "write_matrix t cfg
       \<lparr>seq_of = map (\<lambda>r. store_seq cfg (snd r)) recs,
        name_of = map (\<lambda>r. calloc_strcpy (fst r)) recs,
        N_of = length recs,
        L_of = int L\<rparr> =
     Exit 0
      ((if corner cfg then EXENAME @ '' '' @ VERSION else []) @
       concat (map (\<lambda>j. (if csv cfg then CHR '','' else tab) # printf_s (fst (recs ! j)))
                 [0..<length recs]) @
       [newline] @
       concat (map (\<lambda>j. printf_s (fst (recs ! j)) @
                 concat (map (\<lambda>i. (if csv cfg then CHR '','' else tab) #
                            printf_zu (the (cell t (map (\<lambda>r. store_seq cfg (snd r)) recs) L j i)))
                          [0..<length recs]) @
                 [newline])
               [0..<length recs]))"
proof -
  let ?seqs = "map (\<lambda>r. store_seq cfg (snd r)) recs"
  let ?names = "map (\<lambda>r. calloc_strcpy (fst r)) recs"
  let ?sep = "if csv cfg then CHR '','' else tab"
  have cells: "\<forall>r k. r < length recs \<and> k < length recs \<longrightarrow> (\<exists>d. cell t ?seqs L r k = Some d)"
    using stored_cells_defined [OF assms] by blast
  have names: "\<And>j. j < length recs \<Longrightarrow> printf_s (?names ! j) = printf_s (fst (recs ! j))"
    by (simp add: printf_s_calloc_strcpy)
  have hdr: "concat (map (\<lambda>k. ?sep # printf_s (?names ! k)) [0..<length recs]) =
      concat (map (\<lambda>j. ?sep # printf_s (fst (recs ! j))) [0..<length recs])"
    by (rule arg_cong [where f = concat], rule map_cong) (simp_all add: printf_s_calloc_strcpy)
  have rows: "concat (map (\<lambda>r. printf_s (?names ! r) @
                concat (map (\<lambda>k. ?sep # printf_zu (the (cell t ?seqs L r k))) [0..<length recs]) @ [newline])
              [0..<length recs]) =
      concat (map (\<lambda>j. printf_s (fst (recs ! j)) @
                 concat (map (\<lambda>i. ?sep # printf_zu (the (cell t ?seqs L j i))) [0..<length recs]) @
                 [newline])
               [0..<length recs])"
    by (rule arg_cong [where f = concat], rule map_cong) (simp_all add: printf_s_calloc_strcpy)
  show ?thesis
    unfolding write_matrix_def Let_def
    by (simp only: loaded.simps nat_int header_loop_eq matrix_loop_eq [OF cells] hdr rows
          option.case append_assoc)
qed

subsection \<open>The whole program\<close>

lemma run_ok:
  assumes "fs fasta = Some recs" "recs \<noteq> []" "length recs \<le> MAX_SEQ"
    "\<forall>r\<in>set recs. length (snd r) = L"
  shows "run t cfg fs (fasta # rest) =
     write_matrix t cfg
       \<lparr>seq_of = map (\<lambda>r. store_seq cfg (snd r)) recs,
        name_of = map (\<lambda>r. calloc_strcpy (fst r)) recs,
        N_of = length recs,
        L_of = int L\<rparr>"
proof -
  have hd: "length (snd (hd recs)) = L" using assms(2,4) by (cases recs) auto
  have eq: "\<forall>r\<in>set recs. length (snd r) = length (snd (hd recs))" using assms(4) hd by simp
  show ?thesis
    unfolding run_def by (simp add: assms(1) load_ok [OF assms(2) eq assms(3)] hd)
qed


lemma main_run:
  "parse_opts opts config0 = Inr cfg \<Longrightarrow> main fs opts args = run table cfg fs args"
  by (simp add: main_def table_def)










subsection \<open>Examples\<close>

lemma store_seq_evals:
  "store_seq config0 ''ACGT'' = ''ACGT'' @ [NUL]"
  "store_seq config0 ''ACGA'' = ''ACGA'' @ [NUL]"
  "store_seq config0 ''NNNN'' = ''....'' @ [NUL]"
  by (simp_all add: store_seq_def config0_def calloc_strcpy_def NUL_def toupper_def IGNORE_CHAR_def)

text \<open>
  Claim C2. For \<open>N\<close> records of equal length \<open>L\<close> (at least one, at most \<^verbatim>\<open>MAX_SEQ\<close>) the
  program exits with status 0 and writes: the header line with the names in input order;
  then, for each record \<open>j\<close> in input order, its name and for each record \<open>i\<close> in input order
  the distance of the stored sequences of \<open>j\<close> and \<open>i\<close>. All \<open>N \<times> N\<close> ordered pairs are
  computed, the diagonal and both \<open>(j, i)\<close> and \<open>(i, j)\<close> included, and each distance is
  defined.
\<close>

theorem matrix_in_input_order:
  assumes "parse_opts opts config0 = Inr cfg" and "fs fasta = Some recs"
    and "recs \<noteq> []" and "length recs \<le> MAX_SEQ"
    and "\<forall>r\<in>set recs. length (snd r) = L"
  shows "(\<forall>j<length recs. \<forall>i<length recs.
            \<exists>d. distance table (store_seq cfg (snd (recs ! j))) (store_seq cfg (snd (recs ! i))) L = Some d) \<and>
         main fs opts (fasta # rest) =
           Exit 0
            ((if corner cfg then EXENAME @ '' '' @ VERSION else []) @
             concat (map (\<lambda>j. (if csv cfg then CHR '','' else tab) # printf_s (fst (recs ! j)))
                       [0..<length recs]) @
             [newline] @
             concat (map (\<lambda>j. printf_s (fst (recs ! j)) @
                       concat (map (\<lambda>i. (if csv cfg then CHR '','' else tab) #
                                 printf_zu (the (distance table (store_seq cfg (snd (recs ! j)))
                                                    (store_seq cfg (snd (recs ! i))) L)))
                               [0..<length recs]) @
                       [newline])
                     [0..<length recs]))"
proof -
  let ?seqs = "map (\<lambda>r. store_seq cfg (snd r)) recs"
  let ?sep = "if csv cfg then CHR '','' else tab"
  have cell: "cell table ?seqs L j i =
      distance table (store_seq cfg (snd (recs ! j))) (store_seq cfg (snd (recs ! i))) L"
    if "j < length recs" "i < length recs" for j i
    using that by (simp add: cell_def)
  have defined: "\<forall>j<length recs. \<forall>i<length recs.
      \<exists>d. distance table (store_seq cfg (snd (recs ! j))) (store_seq cfg (snd (recs ! i))) L = Some d"
  proof (intro allI impI)
    fix j i assume ji: "j < length recs" "i < length recs"
    have "\<exists>d. cell table ?seqs L j i = Some d"
      by (rule stored_cells_defined [OF assms(5) ji])
    then show "\<exists>d. distance table (store_seq cfg (snd (recs ! j))) (store_seq cfg (snd (recs ! i))) L = Some d"
      by (simp only: cell [OF ji])
  qed
  have row: "concat (map (\<lambda>i. ?sep # printf_zu (the (cell table ?seqs L j i))) [0..<length recs]) =
      concat (map (\<lambda>i. ?sep # printf_zu (the (distance table (store_seq cfg (snd (recs ! j)))
                                                    (store_seq cfg (snd (recs ! i))) L)))
                [0..<length recs])"
    if "j < length recs" for j
    by (rule arg_cong [where f = concat], rule map_cong) (simp_all add: cell that)
  have rows: "concat (map (\<lambda>j. printf_s (fst (recs ! j)) @
                 concat (map (\<lambda>i. ?sep # printf_zu (the (cell table ?seqs L j i))) [0..<length recs]) @
                 [newline])
               [0..<length recs]) =
      concat (map (\<lambda>j. printf_s (fst (recs ! j)) @
                       concat (map (\<lambda>i. ?sep #
                                 printf_zu (the (distance table (store_seq cfg (snd (recs ! j)))
                                                    (store_seq cfg (snd (recs ! i))) L)))
                               [0..<length recs]) @
                       [newline])
                     [0..<length recs])"
    by (rule arg_cong [where f = concat], rule map_cong) (simp_all add: row)
  have "main fs opts (fasta # rest) =
      write_matrix table cfg
       \<lparr>seq_of = ?seqs, name_of = map (\<lambda>r. calloc_strcpy (fst r)) recs,
        N_of = length recs, L_of = int L\<rparr>"
    by (simp only: main_run [OF assms(1)]
          run_ok [where fs = fs and fasta = fasta, OF assms(2-5)])
  then show ?thesis
    using defined by (simp only: write_matrix_eq [OF assms(5)] rows simp_thms)
qed

text \<open>
  Claim C2 on the scenario of the specification.
\<close>

theorem matrix_in_input_order_witness:
  "main scenario_fs [] [''aln.fa''] =
     Exit 0 (''snp-dists 0.6.3'' @ [tab] @ ''S1'' @ [tab] @ ''S2'' @ [tab] @ ''S3'' @ [newline] @
             ''S1'' @ [tab] @ ''0'' @ [tab] @ ''1'' @ [tab] @ ''0'' @ [newline] @
             ''S2'' @ [tab] @ ''1'' @ [tab] @ ''0'' @ [tab] @ ''0'' @ [newline] @
             ''S3'' @ [tab] @ ''0'' @ [tab] @ ''0'' @ [tab] @ ''0'' @ [newline])"
proof -
  have h1: "parse_opts [] config0 = Inr config0" by simp
  have h2: "scenario_fs ''aln.fa'' = Some scenario_records" by (simp add: scenario_fs_def)
  have h3: "scenario_records \<noteq> []" by (simp add: scenario_records_def)
  have h4: "length scenario_records \<le> MAX_SEQ" by (simp add: scenario_records_def MAX_SEQ_def)
  have h5: "\<forall>r\<in>set scenario_records. length (snd r) = 4" by (simp add: scenario_records_def)
  have upt: "[0..<3] = [0, 1, 2]" by (simp add: upt_rec)
  have cfg: "corner config0" "\<not> csv config0" by (simp_all add: config0_def)
  from matrix_in_input_order [where fs = scenario_fs and fasta = "''aln.fa''" and rest = "[]",
      OF h1 h2 h3 h4 h5]
  have "main scenario_fs [] [''aln.fa''] =
           Exit 0
            ((if corner config0 then EXENAME @ '' '' @ VERSION else []) @
             concat (map (\<lambda>j. (if csv config0 then CHR '','' else tab) # printf_s (fst (scenario_records ! j)))
                       [0..<length scenario_records]) @
             [newline] @
             concat (map (\<lambda>j. printf_s (fst (scenario_records ! j)) @
                       concat (map (\<lambda>i. (if csv config0 then CHR '','' else tab) #
                                 printf_zu (the (distance table (store_seq config0 (snd (scenario_records ! j)))
                                                    (store_seq config0 (snd (scenario_records ! i))) 4)))
                               [0..<length scenario_records]) @
                       [newline])
                     [0..<length scenario_records]))"
    by (rule conjunct2)
  then show ?thesis
    by (simp add: scenario_records_def upt cfg store_seq_evals
          distance_def distance_loop.simps table_cases IGNORE_CHAR_def NUL_def
          printf_zu_def show_nat.simps printf_s_def EXENAME_def VERSION_def)
qed

text \<open>
  Claim C5. For sequences that hold \<open>L\<close> symbols and a position \<open>i < L\<close>: putting the ignore
  sentinel at position \<open>i\<close> of either sequence does not increase the distance the program
  computes; and where both sequences hold the sentinel at \<open>i\<close>, the position adds nothing
  under any table \<open>t\<close>: the distance is that of the sequences with position \<open>i\<close> taken out.
\<close>

theorem sentinel_absorbs:
  assumes "i < L" and "L \<le> length a" and "L \<le> length b" and "L < 2 ^ 64"
  shows "(\<exists>d d'. distance table a b L = Some d \<and>
            distance table (a[i := IGNORE_CHAR]) b L = Some d' \<and> unat d' \<le> unat d) \<and>
         (\<exists>d d'. distance table a b L = Some d \<and>
            distance table a (b[i := IGNORE_CHAR]) L = Some d' \<and> unat d' \<le> unat d) \<and>
         (\<forall>t. a ! i = IGNORE_CHAR \<and> b ! i = IGNORE_CHAR \<longrightarrow>
            distance t a b L = distance t (without i a) (without i b) (L - 1))"
proof (intro conjI allI impI)
  show "\<exists>d d'. distance table a b L = Some d \<and>
            distance table (a[i := IGNORE_CHAR]) b L = Some d' \<and> unat d' \<le> unat d"
    using sentinel_left_le [OF assms(2-4), of i] by (auto simp: word_le_nat_alt)
  show "\<exists>d d'. distance table a b L = Some d \<and>
            distance table a (b[i := IGNORE_CHAR]) L = Some d' \<and> unat d' \<le> unat d"
    using sentinel_right_le [OF assms(2-4), of i] by (auto simp: word_le_nat_alt)
next
  fix t assume "a ! i = IGNORE_CHAR \<and> b ! i = IGNORE_CHAR"
  then have "contribution t (a ! i) (b ! i) = 0" by (simp add: contribution_same)
  then show "distance t a b L = distance t (without i a) (without i b) (L - 1)"
    by (rule distance_without [OF assms(1-3)])
qed

text \<open>
  Claim C5 at position 2 of \<^verbatim>\<open>.CG\<close> against \<^verbatim>\<open>.AT\<close>, and of \<^verbatim>\<open>.C.\<close> against \<^verbatim>\<open>.A.\<close>.
\<close>

theorem sentinel_absorbs_witness:
  "(\<exists>d d'. distance table ''.CG'' ''.AT'' 3 = Some d \<and>
       distance table ''.C.'' ''.AT'' 3 = Some d' \<and> unat d' \<le> unat d) \<and>
   distance table ''.C.'' ''.A.'' 3 = distance table ''.C'' ''.A'' 2 \<and>
   distance table0 ''.C.'' ''.A.'' 3 = distance table0 ''.C'' ''.A'' 2"
proof -
  have h: "(2::nat) < 3" "(3::nat) \<le> length ''.CG''" "(3::nat) \<le> length ''.AT''" "(3::nat) < 2 ^ 64"
    by simp_all
  have g: "(2::nat) < 3" "(3::nat) \<le> length ''.C.''" "(3::nat) \<le> length ''.A.''" "(3::nat) < 2 ^ 64"
    by simp_all
  have s: "''.C.'' ! 2 = IGNORE_CHAR \<and> ''.A.'' ! 2 = IGNORE_CHAR" by (simp add: IGNORE_CHAR_def)
  have w: "without 2 ''.C.'' = ''.C''" "without 2 ''.A.'' = ''.A''" by (simp_all add: without_def)
  have u: "''.CG''[2 := IGNORE_CHAR] = ''.C.''" by (simp add: IGNORE_CHAR_def)
  note a = sentinel_absorbs [OF h, THEN conjunct1, unfolded u]
  note b = sentinel_absorbs [OF g, THEN conjunct2, THEN conjunct2, rule_format, OF s, unfolded w]
  have b1: "distance table ''.C.'' ''.A.'' 3 = distance table ''.C'' ''.A'' 2"
    using b [of table] by simp
  have b2: "distance table0 ''.C.'' ''.A.'' 3 = distance table0 ''.C'' ''.A'' 2"
    using b [of table0] by simp
  show ?thesis using a b1 b2 by (intro conjI)
qed




lemma load_scenario: "load config0 scenario_records = Inr scenario_loaded"
proof -
  have "scenario_records \<noteq> []"
    "\<forall>r\<in>set scenario_records. length (snd r) = length (snd (hd scenario_records))"
    "length scenario_records \<le> MAX_SEQ"
    by (simp_all add: scenario_records_def MAX_SEQ_def)
  then have "load config0 scenario_records =
     Inr \<lparr>seq_of = map (\<lambda>r. store_seq config0 (snd r)) scenario_records,
          name_of = map (\<lambda>r. calloc_strcpy (fst r)) scenario_records,
          N_of = length scenario_records,
          L_of = int (length (snd (hd scenario_records)))\<rparr>"
    by (rule load_ok)
  then show ?thesis
    by (simp add: scenario_records_def scenario_loaded_def store_seq_evals calloc_strcpy_def NUL_def)
qed

text \<open>
  Claim C6. The distance of a sequence to itself is 0, whatever the table; so every cell on
  the diagonal of the matrix of a loaded alignment is 0.
\<close>

theorem identity_zero:
  "(L \<le> length s \<longrightarrow> distance t s s L = Some 0) \<and>
   (load cfg recs = Inr st \<and> i < N_of st \<longrightarrow> cell table (seq_of st) (nat (L_of st)) i i = Some 0)"
proof (intro conjI impI)
  assume "L \<le> length s"
  then show "distance t s s L = Some 0" by (rule distance_same)
next
  assume a: "load cfg recs = Inr st \<and> i < N_of st"
  note c = load_Inr_cases [OF a [THEN conjunct1]]
  have same: "\<forall>r\<in>set recs. length (snd r) = length (snd (hd recs))"
    using c by (elim conjE)
  have st: "st = \<lparr>seq_of = map (\<lambda>r. store_seq cfg (snd r)) recs,
               name_of = map (\<lambda>r. calloc_strcpy (fst r)) recs,
               N_of = length recs,
               L_of = int (length (snd (hd recs)))\<rparr>"
    using c by (elim conjE)
  have i: "i < length recs" using a unfolding st by simp
  then have "recs ! i \<in> set recs" by simp
  then have len: "length (snd (recs ! i)) = length (snd (hd recs))" using same by (rule bspec [rotated])
  have "nat (L_of st) \<le> length (seq_of st ! i)"
    unfolding st using i by (simp add: length_store_seq len)
  then show "cell table (seq_of st) (nat (L_of st)) i i = Some 0"
    unfolding cell_def by (rule distance_same)
qed

text \<open>
  Claim C6 on \<^verbatim>\<open>ACGT\<close> and on the scenario of the specification.
\<close>

theorem identity_zero_witness:
  "distance table ''ACGT'' ''ACGT'' 4 = Some 0 \<and>
   load config0 scenario_records = Inr scenario_loaded \<and>
   cell table (seq_of scenario_loaded) (nat (L_of scenario_loaded)) 1 1 = Some 0"
proof -
  have n: "(1::nat) < N_of scenario_loaded" by (simp add: scenario_loaded_def)
  have l: "(4::nat) \<le> length ''ACGT''" by simp
  note t = identity_zero [of 4 "''ACGT''" table config0 scenario_records scenario_loaded 1]
  show ?thesis using t n l load_scenario by blast
qed

text \<open>
  Claim C7. Under a symmetric table \<^verbatim>\<open>distance\<close> is symmetric, so cell \<open>(i, j)\<close> equals
  cell \<open>(j, i)\<close>; the table built by \<^verbatim>\<open>init_table\<close> is symmetric, so this holds for the
  matrix the program computes.
\<close>

theorem symmetric_matrix:
  "((\<forall>x y. t x y = t y x) \<longrightarrow>
      distance t a b L = distance t b a L \<and> cell t seqs L i j = cell t seqs L j i) \<and>
   (\<forall>x y. table x y = table y x) \<and>
   cell table seqs L i j = cell table seqs L j i"
proof -
  have "cell u seqs L i j = cell u seqs L j i" if "\<forall>x y. u x y = u y x" for u
    unfolding cell_def by (rule distance_sym [OF that])
  then show ?thesis using distance_sym table_sym by blast
qed

text \<open>
  Claim C7 for the table of \<^verbatim>\<open>init_table\<close>.
\<close>

theorem symmetric_matrix_witness:
  "(\<forall>x y. table x y = table y x) \<and>
   distance table ''ACGT'' ''ACGA'' 4 = distance table ''ACGA'' ''ACGT'' 4 \<and>
   cell table (seq_of scenario_loaded) 4 0 1 = cell table (seq_of scenario_loaded) 4 1 0"
  using symmetric_matrix [of table "''ACGT''" "''ACGA''" 4 "seq_of scenario_loaded" 0 1]
  by blast

subsection \<open>The table against the possible bases of the specification\<close>

lemma table_one_iff:
  "table x y = 1 \<longleftrightarrow>
     (x, y) \<in> {(CHR ''A'', CHR ''C''), (CHR ''A'', CHR ''G''), (CHR ''A'', CHR ''T''),
               (CHR ''C'', CHR ''A''), (CHR ''C'', CHR ''G''), (CHR ''C'', CHR ''T''),
               (CHR ''G'', CHR ''A''), (CHR ''G'', CHR ''C''), (CHR ''G'', CHR ''T''),
               (CHR ''T'', CHR ''A''), (CHR ''T'', CHR ''C''), (CHR ''T'', CHR ''G''),
               (CHR ''T'', CHR ''W''), (CHR ''W'', CHR ''T'')}"
  by (simp add: table_cases)

lemma definite_bases_differ:
  assumes "x \<in> set ''ACGT''" "y \<in> set ''ACGT''" "x \<noteq> y"
  shows "table x y = 1"
  using assms by (auto simp: table_cases)

text \<open>
  Claim C3, at the input where the code departs from it. \<open>W\<close> (A or T) and \<open>C\<close> share no
  base and \<open>A\<close> against \<open>C\<close> counts 1, but the entry of \<open>(W, C)\<close> is 0: \<^verbatim>\<open>init_table\<close> never
  writes it. With \<^verbatim>\<open>-a\<close>, which the help text describes as counting all differences and
  not just those among \<open>A\<close>, \<open>G\<close>, \<open>T\<close>, \<open>C\<close>, the program prints distance 0 for the
  sequences \<^verbatim>\<open>W\<close> and \<^verbatim>\<open>C\<close>.
\<close>

theorem ambiguity_pair_not_counted:
  "spec_possible_bases (CHR ''W'') \<inter> spec_possible_bases (CHR ''C'') = {} \<and>
   table (CHR ''A'') (CHR ''C'') = 1 \<and>
   table (CHR ''W'') (CHR ''C'') = 0 \<and>
   main wc_fs ''a'' [''aln.fa''] =
     Exit 0 (''snp-dists 0.6.3'' @ [tab] @ ''S1'' @ [tab] @ ''S2'' @ [newline] @
             ''S1'' @ [tab] @ ''0'' @ [tab] @ ''0'' @ [newline] @
             ''S2'' @ [tab] @ ''0'' @ [tab] @ ''0'' @ [newline])"
proof -
  have "main wc_fs ''a'' [''aln.fa''] =
     Exit 0 (''snp-dists 0.6.3'' @ [tab] @ ''S1'' @ [tab] @ ''S2'' @ [newline] @
             ''S1'' @ [tab] @ ''0'' @ [tab] @ ''0'' @ [newline] @
             ''S2'' @ [tab] @ ''0'' @ [tab] @ ''0'' @ [newline])"
    by (simp add: main_def run_def wc_fs_def load_def Let_def config0_def store_seq_def
          calloc_strcpy_def NUL_def toupper_def write_matrix_def header_loop.simps
          matrix_loop.simps row_loop.simps cell_def distance_def distance_loop.simps
          printf_s_def printf_zu_def show_nat.simps IGNORE_CHAR_def init_table_def set_cell_def
          table0_def EXIT_SUCCESS_def EXENAME_def VERSION_def MAX_SEQ_def)
  then show ?thesis
    by (simp add: table_cases spec_possible_bases_def)
qed

text \<open>
  Claim C4 as stated fails: \<open>W\<close> (A or T) and \<open>T\<close> share the base \<open>T\<close>, and line 36 sets the
  entry of \<open>(W, T)\<close> to 1.
\<close>

theorem compatible_pair_counted_counterexample:
  "spec_possible_bases (CHR ''W'') \<inter> spec_possible_bases (CHR ''T'') \<noteq> {} \<and>
   table (CHR ''W'') (CHR ''T'') = 1 \<and> table (CHR ''W'') (CHR ''T'') \<noteq> 0"
  by (simp add: table_cases spec_possible_bases_def)

lemma table_one_cases:
  assumes "table x y = 1"
  shows "(x \<in> set ''ACGT'' \<and> y \<in> set ''ACGT'' \<and> x \<noteq> y) \<or>
         (x, y) = (CHR ''W'', CHR ''T'') \<or> (x, y) = (CHR ''T'', CHR ''W'')"
proof -
  have "x = CHR ''A'' \<or> x = CHR ''C'' \<or> x = CHR ''G'' \<or> x = CHR ''T'' \<or> x = CHR ''W'' \<or>
      (x \<noteq> CHR ''A'' \<and> x \<noteq> CHR ''C'' \<and> x \<noteq> CHR ''G'' \<and> x \<noteq> CHR ''T'' \<and> x \<noteq> CHR ''W'')"
    by blast
  then show ?thesis
  proof (elim disjE)
    assume "x = CHR ''A''"
    then show ?thesis using assms by (auto simp: table_cases split: if_splits)
  next
    assume "x = CHR ''C''"
    then show ?thesis using assms by (auto simp: table_cases split: if_splits)
  next
    assume "x = CHR ''G''"
    then show ?thesis using assms by (auto simp: table_cases split: if_splits)
  next
    assume "x = CHR ''T''"
    then show ?thesis using assms by (auto simp: table_cases split: if_splits)
  next
    assume "x = CHR ''W''"
    then show ?thesis using assms by (auto simp: table_cases split: if_splits)
  next
    assume "x \<noteq> CHR ''A'' \<and> x \<noteq> CHR ''C'' \<and> x \<noteq> CHR ''G'' \<and> x \<noteq> CHR ''T'' \<and> x \<noteq> CHR ''W''"
    then show ?thesis using assms by (simp add: table_cases)
  qed
qed

lemma spec_possible_bases_definite:
  assumes "x \<in> set ''ACGT''"
  shows "spec_possible_bases x = {x}"
  using assms by (auto simp: spec_possible_bases_def)

text \<open>
  Claim C4, amended. For every pair of symbols other than \<open>(W, T)\<close> and \<open>(T, W)\<close>: the entry is
  0 whenever the sets of possible bases of the two symbols intersect or either symbol is
  fully undetermined; in particular \<open>A\<close> against \<open>N\<close> and \<open>A\<close> against \<open>R\<close> count 0.
\<close>

theorem compatible_pairs_zero:
  assumes "spec_possible_bases x \<inter> spec_possible_bases y \<noteq> {} \<or>
           spec_possible_bases x = set ''ACGT'' \<or> spec_possible_bases y = set ''ACGT''"
    and "(x, y) \<noteq> (CHR ''W'', CHR ''T'')" and "(x, y) \<noteq> (CHR ''T'', CHR ''W'')"
  shows "table x y = 0 \<and>
         table (CHR ''A'') (CHR ''N'') = 0 \<and> table (CHR ''A'') (CHR ''R'') = 0"
proof -
  have "table x y \<noteq> 1"
  proof
    assume "table x y = 1"
    then have d: "x \<in> set ''ACGT''" "y \<in> set ''ACGT''" "x \<noteq> y"
      using table_one_cases [of x y] assms(2,3) by blast+
    have bx: "spec_possible_bases x = {x}" and "by": "spec_possible_bases y = {y}"
      using d by (simp_all only: spec_possible_bases_definite)
    have "{x} \<inter> {y} = {}" using d(3) by simp
    moreover have "{x} \<noteq> set ''ACGT''" "{y} \<noteq> set ''ACGT''" by auto
    ultimately show False using assms(1) unfolding bx "by" by blast
  qed
  then have "table x y = 0" using table_01 [of x y] by blast
  then show ?thesis by (simp add: table_cases)
qed

text \<open>
  Claim C4, amended, at \<open>A\<close> against \<open>R\<close> (they share \<open>A\<close>) and at \<open>N\<close> against \<open>C\<close>.
\<close>

theorem compatible_pairs_zero_witness:
  "spec_possible_bases (CHR ''A'') \<inter> spec_possible_bases (CHR ''R'') \<noteq> {} \<and>
   spec_possible_bases (CHR ''N'') = set ''ACGT'' \<and>
   table (CHR ''A'') (CHR ''R'') = 0 \<and> table (CHR ''N'') (CHR ''C'') = 0"
proof -
  have a: "spec_possible_bases (CHR ''A'') \<inter> spec_possible_bases (CHR ''R'') \<noteq> {}"
    by (simp add: spec_possible_bases_def)
  have n: "spec_possible_bases (CHR ''N'') = set ''ACGT''"
    by (simp add: spec_possible_bases_def)
  have "table (CHR ''A'') (CHR ''R'') = 0"
    using compatible_pairs_zero [of "CHR ''A''" "CHR ''R''"] a by simp
  moreover have "table (CHR ''N'') (CHR ''C'') = 0"
    using compatible_pairs_zero [of "CHR ''N''" "CHR ''C''"] n by simp
  ultimately show ?thesis using a n by (intro conjI)
qed

text \<open>
  Claim C8 as stated fails: with \<^verbatim>\<open>-k\<close> the distance of \<^verbatim>\<open>acgt\<close> and \<^verbatim>\<open>ACGT\<close> is 0, not 4, and
  the program prints 0 in every cell.
\<close>

theorem keep_case_counterexample:
  "parse_opts ''k'' config0 = Inr (config0\<lparr>keepcase := True\<rparr>) \<and>
   distance table (store_seq (config0\<lparr>keepcase := True\<rparr>) ''acgt'')
     (store_seq (config0\<lparr>keepcase := True\<rparr>) ''ACGT'') 4 = Some 0 \<and>
   (0 :: size_t) \<noteq> 4 \<and>
   main case_fs ''k'' [''aln.fa''] =
     Exit 0 (''snp-dists 0.6.3'' @ [tab] @ ''S1'' @ [tab] @ ''S2'' @ [newline] @
             ''S1'' @ [tab] @ ''0'' @ [tab] @ ''0'' @ [newline] @
             ''S2'' @ [tab] @ ''0'' @ [tab] @ ''0'' @ [newline])"
  by (simp add: main_def run_def case_fs_def load_def Let_def config0_def store_seq_def
          calloc_strcpy_def NUL_def toupper_def write_matrix_def header_loop.simps
          matrix_loop.simps row_loop.simps cell_def distance_def distance_loop.simps
          printf_s_def printf_zu_def show_nat.simps IGNORE_CHAR_def init_table_def set_cell_def
          table0_def table_def EXIT_SUCCESS_def EXENAME_def VERSION_def MAX_SEQ_def)

text \<open>
  Claim C8, amended. With keep-case on and count-all-characters off, the lower-case symbols
  of \<^verbatim>\<open>acgt\<close> are none of \<open>A\<close>, \<open>C\<close>, \<open>G\<close>, \<open>T\<close> and the loader replaces each by the ignore
  sentinel, so the distance of \<^verbatim>\<open>acgt\<close> and \<^verbatim>\<open>ACGT\<close> is 0.
\<close>

theorem keep_case_lower_ignored:
  assumes "keepcase cfg" and "\<not> allchars cfg"
  shows "store_seq cfg ''acgt'' = [IGNORE_CHAR, IGNORE_CHAR, IGNORE_CHAR, IGNORE_CHAR, NUL] \<and>
         store_seq cfg ''ACGT'' = ''ACGT'' @ [NUL] \<and>
         distance table (store_seq cfg ''acgt'') (store_seq cfg ''ACGT'') 4 = Some 0"
proof -
  have lower: "store_seq cfg ''acgt'' = [IGNORE_CHAR, IGNORE_CHAR, IGNORE_CHAR, IGNORE_CHAR, NUL]"
    using assms by (simp add: store_seq_def calloc_strcpy_def NUL_def)
  have upper: "store_seq cfg ''ACGT'' = ''ACGT'' @ [NUL]"
    using assms by (simp add: store_seq_def calloc_strcpy_def NUL_def)
  have "distance table [IGNORE_CHAR, IGNORE_CHAR, IGNORE_CHAR, IGNORE_CHAR, NUL] (''ACGT'' @ [NUL]) 4 = Some 0"
    by (simp add: distance_def distance_loop.simps)
  then show ?thesis by (simp only: lower upper simp_thms)
qed

text \<open>
  Claim C8, amended, for the options \<^verbatim>\<open>-k\<close>.
\<close>

theorem keep_case_lower_ignored_witness:
  "keepcase (config0\<lparr>keepcase := True\<rparr>) \<and> \<not> allchars (config0\<lparr>keepcase := True\<rparr>) \<and>
   distance table (store_seq (config0\<lparr>keepcase := True\<rparr>) ''acgt'')
     (store_seq (config0\<lparr>keepcase := True\<rparr>) ''ACGT'') 4 = Some 0"
proof -
  have k: "keepcase (config0\<lparr>keepcase := True\<rparr>)" by simp
  have a: "\<not> allchars (config0\<lparr>keepcase := True\<rparr>)" by (simp add: config0_def)
  from keep_case_lower_ignored [OF k a] show ?thesis using k a by blast
qed

end
